theory Spec2Isabelle
  imports Complex_Main "HOL-Library.Word" "HOL-Library.Multiset"
begin

unbundle bit_operations_syntax

section \<open>Data model\<close>

text \<open>
  The program (\<^verbatim>\<open>main.cc\<close>) is a family of streaming cardinality estimators. Every
  register is a \<^verbatim>\<open>uint32_t\<close>, the bucket count \<open>M\<close> is a template parameter of type
  \<^verbatim>\<open>unsigned\<close>, and a bucketed sketch is the array \<^verbatim>\<open>uint32_t sketch_[M]\<close>. Unsigned
  32-bit values are \<open>32 word\<close>, the array is a list, and the template parameter is passed
  to every operation next to the array.

  An operation that stops the program is a value of \<open>error\<close>: the integer remainder
  \<^verbatim>\<open>% M\<close> with \<open>M = 0\<close>, and an array access outside the array. All integer
  arithmetic, with its wrap-around at \<open>2 ^ 32\<close>, is exact.
\<close>

type_synonym u32 = "32 word"

type_synonym sketch = "u32 list"

datatype error = DivisionByZero | OutOfBounds

definition read_reg :: "sketch \<Rightarrow> nat \<Rightarrow> error + u32" where
  "read_reg sketch k = (if k < length sketch then Inr (sketch ! k) else Inl OutOfBounds)"

definition write_reg :: "sketch \<Rightarrow> nat \<Rightarrow> u32 \<Rightarrow> error + sketch" where
  "write_reg sketch k v = (if k < length sketch then Inr (sketch[k := v]) else Inl OutOfBounds)"

text \<open>\<^verbatim>\<open>a % b\<close> on \<^verbatim>\<open>unsigned\<close>.\<close>

definition urem :: "u32 \<Rightarrow> u32 \<Rightarrow> error + u32" where
  "urem a b = (if b = 0 then Inl DivisionByZero else Inr (a mod b))"

text \<open>
  The arithmetic of \<^verbatim>\<open>double\<close> is not part of the sources: it is the platform's.
  It is a parameter of every \<open>count\<close>, a record of operations on a type \<open>'d\<close> of
  doubles: \<open>lit\<close> is the conversion of a literal of the source at compile time,
  \<open>of_u32\<close> the conversion of a \<^verbatim>\<open>uint32_t\<close> or an \<^verbatim>\<open>unsigned\<close>, then the four
  operations, \<^verbatim>\<open>pow\<close> of the C library, and \<open>to_size_t\<close>, the implicit conversion of
  the \<^verbatim>\<open>double\<close> in a \<^verbatim>\<open>return\<close> statement to the \<^verbatim>\<open>size_t\<close> result. Nothing is
  assumed about them: what rounding, a division by zero (a NaN or an infinity, no
  trap) and a conversion out of range yield is what the operations of the record yield.
\<close>

record 'd fpu =
  lit :: "real \<Rightarrow> 'd"
  of_u32 :: "u32 \<Rightarrow> 'd"
  fadd :: "'d \<Rightarrow> 'd \<Rightarrow> 'd"
  fsub :: "'d \<Rightarrow> 'd \<Rightarrow> 'd"
  fmul :: "'d \<Rightarrow> 'd \<Rightarrow> 'd"
  fdiv :: "'d \<Rightarrow> 'd \<Rightarrow> 'd"
  pow :: "'d \<Rightarrow> 'd \<Rightarrow> 'd"
  to_size_t :: "'d \<Rightarrow> nat"

text \<open>
  The exact arithmetic of the reals, with truncation as the conversion: the
  arithmetic that \<^verbatim>\<open>double\<close> approximates. It serves to evaluate a \<open>count\<close> at
  concrete inputs where no divisor is zero and the exact value is well away from an
  integer, so that the rounding of an operation on doubles does not change the
  result of the truncation.
\<close>

definition real_fpu :: "real fpu" where
  "real_fpu =
     \<lparr>lit = (\<lambda>x. x), of_u32 = (\<lambda>w. real (unat w)),
      fadd = (\<lambda>a b. a + b), fsub = (\<lambda>a b. a - b),
      fmul = (\<lambda>a b. a * b), fdiv = (\<lambda>a b. a / b),
      pow = (\<lambda>a b. a powr b), to_size_t = (\<lambda>x. nat \<lfloor>x\<rfloor>)\<rparr>"

text \<open>
  \<^verbatim>\<open>for (unsigned k = k0; k < M; ++k) body\<close>, the only loop shape of the estimators. The
  counter stays below \<open>M < 2 ^ 32\<close>, so its increment never wraps.
\<close>

function for_loop :: "nat \<Rightarrow> nat \<Rightarrow> (nat \<Rightarrow> 'a \<Rightarrow> error + 'a) \<Rightarrow> 'a \<Rightarrow> error + 'a" where
  "for_loop k M body acc =
     (if k < M then
        (case body k acc of
           Inl e \<Rightarrow> Inl e
         | Inr acc' \<Rightarrow> for_loop (k + 1) M body acc')
      else Inr acc)"
  by pat_completeness auto
termination
  by (relation "measure (\<lambda>(k, M, body, acc). M - k)") auto

declare for_loop.simps [simp del]

section \<open>Namespace \<^verbatim>\<open>PCSA\<close>: the bit-rank utilities\<close>

definition kPhi :: "'d fpu \<Rightarrow> 'd" where
  "kPhi fp = lit fp (77351 / 100000)"

text \<open>
  Modelled from the spec: \<^verbatim>\<open>__builtin_popcount\<close>, the compiler's intrinsic, which has
  no definition in the sources. It is the number of set bits of its 32-bit argument,
  exact for every input, counted here bit by bit.
\<close>

fun popcount_upto :: "nat \<Rightarrow> u32 \<Rightarrow> nat" where
  "popcount_upto 0 x = 0"
| "popcount_upto (Suc n) x = (if bit x n then 1 else 0) + popcount_upto n x"

definition builtin_popcount :: "u32 \<Rightarrow> nat" where
  "builtin_popcount x = popcount_upto 32 x"

definition p :: "u32 \<Rightarrow> u32" where
  "p x = of_nat (builtin_popcount x)"

definition R :: "u32 \<Rightarrow> u32" where
  "R x = NOT x AND (x + 1)"

definition r :: "u32 \<Rightarrow> u32" where
  "r x = p (R x - 1)"

text \<open>
  The specification's reading of \<open>r\<close>: the number of trailing one bits of a 32-bit
  value, that is, how many bits from bit 0 upwards are set before the first cleared one.
\<close>

definition trailing_ones :: "u32 \<Rightarrow> nat" where
  "trailing_ones x = length (takeWhile (bit x) [0..<32])"

section \<open>The estimators\<close>

text \<open>
  Two hash functions are consumed as opaque parameters. \<open>hash\<close> is the member
  \<^verbatim>\<open>hash<string> hash_\<close>, read after the implicit conversion of its \<^verbatim>\<open>size_t\<close> result to
  the \<^verbatim>\<open>uint32_t\<close> parameter of \<open>R\<close> and \<open>r\<close>. \<open>murmurhash3_32\<close> is declared in
  \<^verbatim>\<open>murmurhash3.h\<close>, which is not part of the sources; it is applied to the bytes of
  the item.
\<close>

subsection \<open>\<^verbatim>\<open>PCSACardinalityEstimator\<close>\<close>

definition pcsa_new :: u32 where
  "pcsa_new = 0"

definition pcsa_item :: "(string \<Rightarrow> u32) \<Rightarrow> u32 \<Rightarrow> string \<Rightarrow> u32" where
  "pcsa_item hash sketch s = sketch OR R (hash s)"

text \<open>Every \<open>count\<close> returns its result together with the state it leaves behind.\<close>

definition pcsa_count :: "'d fpu \<Rightarrow> u32 \<Rightarrow> (error + nat) \<times> u32" where
  "pcsa_count fp sketch =
     (Inr (to_size_t fp (fdiv fp (of_u32 fp (R sketch)) (kPhi fp))), sketch)"

subsection \<open>\<^verbatim>\<open>StochasticAveragingCardinalityEstimator<M>\<close>\<close>

text \<open>
  The constructor writes 0 into each of the \<open>M\<close> registers; \<open>mem\<close> is the content of
  the array before the constructor runs.
\<close>

definition sa_new :: "u32 \<Rightarrow> sketch \<Rightarrow> error + sketch" where
  "sa_new M mem = for_loop 0 (unat M) (\<lambda>k sketch. write_reg sketch k 0) mem"

definition sa_item ::
  "(string \<Rightarrow> u32) \<Rightarrow> (string \<Rightarrow> u32) \<Rightarrow> u32 \<Rightarrow> sketch \<Rightarrow> string \<Rightarrow> error + sketch" where
  "sa_item murmurhash3_32 hash M sketch s =
     (case urem (murmurhash3_32 s) M of
        Inl e \<Rightarrow> Inl e
      | Inr k \<Rightarrow>
         (case read_reg sketch (unat k) of
            Inl e \<Rightarrow> Inl e
          | Inr v \<Rightarrow> write_reg sketch (unat k) (v OR R (hash s))))"

text \<open>
  \<open>count\<close>: the loop that accumulates \<^verbatim>\<open>uint32_t sum\<close>, then the two statements
  \<^verbatim>\<open>double mean = sum / (double) M;\<close> and \<^verbatim>\<open>return M * pow(2, mean) / PCSA::kPhi;\<close>.
\<close>

definition sa_sum :: "u32 \<Rightarrow> sketch \<Rightarrow> error + u32" where
  "sa_sum M sketch =
     for_loop 0 (unat M)
       (\<lambda>k sm. case read_reg sketch k of
                   Inl e \<Rightarrow> Inl e
                 | Inr v \<Rightarrow> Inr (sm + r v)) 0"

definition sa_count :: "'d fpu \<Rightarrow> u32 \<Rightarrow> sketch \<Rightarrow> (error + nat) \<times> sketch" where
  "sa_count fp M sketch =
     ((case sa_sum M sketch of
         Inl e \<Rightarrow> Inl e
       | Inr sm \<Rightarrow>
          (let mean = fdiv fp (of_u32 fp sm) (of_u32 fp M)
           in Inr (to_size_t fp
                 (fdiv fp (fmul fp (of_u32 fp M) (pow fp (lit fp 2) mean)) (kPhi fp))))),
      sketch)"

subsection \<open>\<^verbatim>\<open>LogLogCardinalityEstimator<M>\<close>\<close>

definition ll_new :: "u32 \<Rightarrow> sketch \<Rightarrow> error + sketch" where
  "ll_new M mem = for_loop 0 (unat M) (\<lambda>k sketch. write_reg sketch k 0) mem"

definition ll_item ::
  "(string \<Rightarrow> u32) \<Rightarrow> (string \<Rightarrow> u32) \<Rightarrow> u32 \<Rightarrow> sketch \<Rightarrow> string \<Rightarrow> error + sketch" where
  "ll_item murmurhash3_32 hash M sketch s =
     (case urem (murmurhash3_32 s) M of
        Inl e \<Rightarrow> Inl e
      | Inr k \<Rightarrow>
         (let rk = r (hash s) in
          case read_reg sketch (unat k) of
            Inl e \<Rightarrow> Inl e
          | Inr v \<Rightarrow> if v < rk then write_reg sketch (unat k) rk else Inr sketch))"

definition ll_sum :: "u32 \<Rightarrow> sketch \<Rightarrow> error + u32" where
  "ll_sum M sketch =
     for_loop 0 (unat M)
       (\<lambda>k sm. case read_reg sketch k of
                   Inl e \<Rightarrow> Inl e
                 | Inr v \<Rightarrow> Inr (sm + R v)) 0"

definition ll_count :: "'d fpu \<Rightarrow> u32 \<Rightarrow> sketch \<Rightarrow> (error + nat) \<times> sketch" where
  "ll_count fp M sketch =
     ((case ll_sum M sketch of
         Inl e \<Rightarrow> Inl e
       | Inr sm \<Rightarrow>
          (let mean = fdiv fp (of_u32 fp sm) (of_u32 fp M)
           in Inr (to_size_t fp
                 (fmul fp (fmul fp (of_u32 fp M) (pow fp (lit fp 2) (fadd fp mean (lit fp 1))))
                    (kPhi fp))))),
      sketch)"

subsection \<open>\<^verbatim>\<open>HyperLogLogCardinalityEstimator<M>\<close>\<close>

definition hll_new :: "u32 \<Rightarrow> sketch \<Rightarrow> error + sketch" where
  "hll_new M mem = for_loop 0 (unat M) (\<lambda>k sketch. write_reg sketch k 0) mem"

definition hll_item ::
  "(string \<Rightarrow> u32) \<Rightarrow> (string \<Rightarrow> u32) \<Rightarrow> u32 \<Rightarrow> sketch \<Rightarrow> string \<Rightarrow> error + sketch" where
  "hll_item murmurhash3_32 hash M sketch s =
     (case urem (murmurhash3_32 s) M of
        Inl e \<Rightarrow> Inl e
      | Inr k \<Rightarrow>
         (let rk = r (hash s) in
          case read_reg sketch (unat k) of
            Inl e \<Rightarrow> Inl e
          | Inr v \<Rightarrow> if v < rk then write_reg sketch (unat k) rk else Inr sketch))"

text \<open>
  The accumulator is a \<^verbatim>\<open>double\<close> here, started at the literal 0; each step adds
  \<^verbatim>\<open>pow(2, -1.0 - sketch_[k])\<close>.
\<close>

definition hll_sum :: "'d fpu \<Rightarrow> u32 \<Rightarrow> sketch \<Rightarrow> error + 'd" where
  "hll_sum fp M sketch =
     for_loop 0 (unat M)
       (\<lambda>k sm. case read_reg sketch k of
                   Inl e \<Rightarrow> Inl e
                 | Inr v \<Rightarrow>
                    Inr (fadd fp sm (pow fp (lit fp 2) (fsub fp (lit fp (- 1)) (of_u32 fp v)))))
       (lit fp 0)"

text \<open>
  In \<^verbatim>\<open>M * M * PCSA::kPhi / sum\<close> the product \<^verbatim>\<open>M * M\<close> is taken first, on \<^verbatim>\<open>unsigned\<close>,
  and only its 32-bit result is converted to \<^verbatim>\<open>double\<close>.
\<close>

definition hll_count :: "'d fpu \<Rightarrow> u32 \<Rightarrow> sketch \<Rightarrow> (error + nat) \<times> sketch" where
  "hll_count fp M sketch =
     ((case hll_sum fp M sketch of
         Inl e \<Rightarrow> Inl e
       | Inr sm \<Rightarrow>
          Inr (to_size_t fp (fdiv fp (fmul fp (of_u32 fp (M * M)) (kPhi fp)) sm))),
      sketch)"

subsection \<open>The interface \<^verbatim>\<open>CardinalityEstimator\<close>\<close>

text \<open>
  The driver holds the estimators behind the abstract class and calls \<open>item\<close> and
  \<open>count\<close> through it (\<open>item_est\<close> and \<open>count_est\<close> here). The four sketches are
  the variants of one datatype (the exact set-based counter keeps no registers and is
  left out); a bucketed variant carries its template parameter.
\<close>

datatype estimator =
    PCSA u32
  | StochasticAveraging u32 sketch
  | LogLog u32 sketch
  | HyperLogLog u32 sketch

fun lift_est :: "('a \<Rightarrow> estimator) \<Rightarrow> error + 'a \<Rightarrow> error + estimator" where
  "lift_est C (Inl e) = Inl e"
| "lift_est C (Inr s) = Inr (C s)"

fun item_est ::
  "(string \<Rightarrow> u32) \<Rightarrow> (string \<Rightarrow> u32) \<Rightarrow> estimator \<Rightarrow> string \<Rightarrow> error + estimator" where
  "item_est mh h (PCSA sketch) s = Inr (PCSA (pcsa_item h sketch s))"
| "item_est mh h (StochasticAveraging M sketch) s =
     lift_est (StochasticAveraging M) (sa_item mh h M sketch s)"
| "item_est mh h (LogLog M sketch) s = lift_est (LogLog M) (ll_item mh h M sketch s)"
| "item_est mh h (HyperLogLog M sketch) s = lift_est (HyperLogLog M) (hll_item mh h M sketch s)"

fun count_est :: "'d fpu \<Rightarrow> estimator \<Rightarrow> (error + nat) \<times> estimator" where
  "count_est fp (PCSA sketch) =
     (fst (pcsa_count fp sketch), PCSA (snd (pcsa_count fp sketch)))"
| "count_est fp (StochasticAveraging M sketch) =
     (fst (sa_count fp M sketch), StochasticAveraging M (snd (sa_count fp M sketch)))"
| "count_est fp (LogLog M sketch) =
     (fst (ll_count fp M sketch), LogLog M (snd (ll_count fp M sketch)))"
| "count_est fp (HyperLogLog M sketch) =
     (fst (hll_count fp M sketch), HyperLogLog M (snd (hll_count fp M sketch)))"

text \<open>The driver's loop: every item of the stream is passed to \<open>item_est\<close>, in order.\<close>

fun ingest ::
  "(string \<Rightarrow> u32) \<Rightarrow> (string \<Rightarrow> u32) \<Rightarrow> estimator \<Rightarrow> string list \<Rightarrow> error + estimator" where
  "ingest mh h e [] = Inr e"
| "ingest mh h e (s # ss) =
     (case item_est mh h e s of
        Inl err \<Rightarrow> Inl err
      | Inr e' \<Rightarrow> ingest mh h e' ss)"

text \<open>The registers of an estimator, and the states its type admits.\<close>

fun registers :: "estimator \<Rightarrow> u32 list" where
  "registers (PCSA sketch) = [sketch]"
| "registers (StochasticAveraging M sketch) = sketch"
| "registers (LogLog M sketch) = sketch"
| "registers (HyperLogLog M sketch) = sketch"

definition sketch_ok :: "u32 \<Rightarrow> sketch \<Rightarrow> bool" where
  "sketch_ok M sketch = (M \<noteq> 0 \<and> length sketch = unat M)"

fun est_ok :: "estimator \<Rightarrow> bool" where
  "est_ok (PCSA sketch) = True"
| "est_ok (StochasticAveraging M sketch) = sketch_ok M sketch"
| "est_ok (LogLog M sketch) = sketch_ok M sketch"
| "est_ok (HyperLogLog M sketch) = sketch_ok M sketch"

text \<open>
  The reachable states: what a constructor leaves (for a bucketed variant with
  \<open>M \<ge> 1\<close>), and what \<open>item\<close> makes of a reachable state.
\<close>

inductive reachable :: "(string \<Rightarrow> u32) \<Rightarrow> (string \<Rightarrow> u32) \<Rightarrow> estimator \<Rightarrow> bool"
  for mh :: "string \<Rightarrow> u32" and h :: "string \<Rightarrow> u32" where
  new_pcsa: "reachable mh h (PCSA pcsa_new)"
| new_sa: "M \<noteq> 0 \<Longrightarrow> length mem = unat M \<Longrightarrow> sa_new M mem = Inr sketch \<Longrightarrow>
     reachable mh h (StochasticAveraging M sketch)"
| new_ll: "M \<noteq> 0 \<Longrightarrow> length mem = unat M \<Longrightarrow> ll_new M mem = Inr sketch \<Longrightarrow>
     reachable mh h (LogLog M sketch)"
| new_hll: "M \<noteq> 0 \<Longrightarrow> length mem = unat M \<Longrightarrow> hll_new M mem = Inr sketch \<Longrightarrow>
     reachable mh h (HyperLogLog M sketch)"
| after_item: "reachable mh h e \<Longrightarrow> item_est mh h e s = Inr e' \<Longrightarrow> reachable mh h e'"

section \<open>The estimates as the specification words them\<close>

text \<open>The constant \<open>PHI\<close> of the specification, and its formulas over the reals.\<close>

definition PHI :: real where
  "PHI = 77351 / 100000"

text \<open>
  Stochastic averaging: \<open>M * 2^mean / PHI\<close>, \<open>mean\<close> the arithmetic mean over the buckets
  of the number of trailing ones of each register.
\<close>

definition spec_sa_estimate :: "u32 \<Rightarrow> sketch \<Rightarrow> real" where
  "spec_sa_estimate M sketch =
     real (unat M) * 2 powr ((\<Sum>v\<leftarrow>sketch. real (trailing_ones v)) / real (unat M)) / PHI"

text \<open>
  LogLog: \<open>M * 2^(mean + 1) * PHI\<close>, \<open>mean\<close> the sum of 2 raised to each register value,
  divided by \<open>M\<close>.
\<close>

definition spec_ll_estimate :: "u32 \<Rightarrow> sketch \<Rightarrow> real" where
  "spec_ll_estimate M sketch =
     real (unat M) * 2 powr ((\<Sum>v\<leftarrow>sketch. 2 ^ unat v) / real (unat M) + 1) * PHI"

text \<open>HyperLogLog: \<open>M^2 * PHI / sum\<close>, \<open>sum\<close> the sum over the buckets of \<open>2^(-1 - register)\<close>.\<close>

definition spec_hll_estimate :: "u32 \<Rightarrow> sketch \<Rightarrow> real" where
  "spec_hll_estimate M sketch =
     (real (unat M))\<^sup>2 * PHI / (\<Sum>v\<leftarrow>sketch. 2 powr (- 1 - real (unat v)))"

section \<open>Properties of the bit-rank utilities\<close>

lemma low_ones_succ:
  fixes x :: u32
  assumes "\<not> bit x i" "\<forall>j<i. bit x j"
  shows "x + 1 = push_bit i (drop_bit i x OR 1)"
proof -
  have tb: "take_bit i x = mask i"
    using assms by (auto intro!: bit_eqI simp: bit_take_bit_iff bit_mask_iff)
  have ev: "even (drop_bit i x)"
    using assms(1) by (simp add: bit_iff_odd_drop_bit)
  have "x + 1 = push_bit i (drop_bit i x) + take_bit i x + 1"
    by (simp add: bits_ident)
  also have "\<dots> = push_bit i (drop_bit i x) + 2 ^ i"
    by (simp add: tb mask_eq_exp_minus_1)
  also have "\<dots> = push_bit i (drop_bit i x + 1)"
    by (simp add: push_bit_eq_mult algebra_simps)
  also have "drop_bit i x + 1 = drop_bit i x OR 1"
    using ev by (simp add: or_one_eq)
  finally show ?thesis .
qed

lemma R_lowest:
  assumes "i < 32" "\<not> bit x i" "\<forall>j<i. bit x j"
  shows "R x = 2 ^ i"
  unfolding R_def low_ones_succ[OF assms(2,3)]
  using assms
  by (intro bit_eqI)
     (auto simp: bit_and_iff bit_not_iff bit_push_bit_iff bit_or_iff bit_drop_bit_eq bit_exp_iff bit_1_iff)

lemma popcount_upto_mask:
  "n \<le> 32 \<Longrightarrow> popcount_upto n (mask i :: u32) = min n i"
  by (induction n) (auto simp: bit_mask_iff)

lemma r_lowest:
  assumes "i < 32" "\<not> bit x i" "\<forall>j<i. bit x j"
  shows "r x = of_nat i"
  using assms(1)
  by (simp add: r_def R_lowest[OF assms] p_def builtin_popcount_def
      flip: mask_eq_exp_minus_1 add: popcount_upto_mask)

lemma R_all_ones: "R (- 1) = 0"
  by (simp add: R_def)

lemma r_all_ones: "r (- 1) = 32"
  by (simp add: r_def R_def p_def builtin_popcount_def eval_nat_numeral)

lemma takeWhile_upt_first_fail:
  "i < n \<Longrightarrow> \<not> P i \<Longrightarrow> \<forall>j<i. P j \<Longrightarrow> takeWhile P [0..<n] = [0..<i]"
proof (induction n)
  case 0
  then show ?case by simp
next
  case (Suc n)
  show ?case
  proof (cases "i = n")
    case True
    with Suc.prems show ?thesis by (simp add: takeWhile_append)
  next
    case False
    with Suc.prems have "i < n" by simp
    with Suc show ?thesis by (auto simp: takeWhile_append)
  qed
qed

lemma trailing_ones_lowest:
  assumes "i < 32" "\<not> bit x i" "\<forall>j<i. bit x j"
  shows "trailing_ones x = i"
  unfolding trailing_ones_def takeWhile_upt_first_fail[OF assms] by simp

lemma lowest_clear_ex:
  fixes x :: u32
  assumes "x \<noteq> - 1"
  shows "\<exists>i<32. \<not> bit x i \<and> (\<forall>j<i. bit x j)"
proof -
  have "\<exists>i. i < 32 \<and> \<not> bit x i"
  proof (rule ccontr)
    assume "\<not> ?thesis"
    then have "x = - 1" by (intro bit_word_eqI) simp
    with assms show False by simp
  qed
  then obtain i where i: "i < 32 \<and> \<not> bit x i" ..
  define m where "m = (LEAST i. i < 32 \<and> \<not> bit x i)"
  have m: "m < 32 \<and> \<not> bit x m" unfolding m_def using i by (rule LeastI)
  have "bit x j" if "j < m" for j
  proof (rule ccontr)
    assume "\<not> bit x j"
    with that m have "j < 32 \<and> \<not> bit x j" by simp
    then have "m \<le> j" unfolding m_def by (rule Least_le)
    with that show False by simp
  qed
  with m show ?thesis by blast
qed

lemma trailing_ones_all_ones: "trailing_ones (- 1) = 32"
proof -
  have all: "takeWhile (bit (- 1 :: u32)) [0..<32] = [0..<32]"
    by (subst takeWhile_eq_all_conv) simp
  show ?thesis unfolding trailing_ones_def all by simp
qed

lemma r_trailing: "r x = of_nat (trailing_ones x)"
proof (cases "x = - 1")
  case True
  then show ?thesis by (simp add: r_all_ones trailing_ones_all_ones)
next
  case False
  from lowest_clear_ex[OF this] obtain i where "i < 32" "\<not> bit x i" "\<forall>j<i. bit x j" by blast
  then show ?thesis by (simp add: r_lowest trailing_ones_lowest)
qed

lemma trailing_ones_le: "trailing_ones x \<le> 32"
  unfolding trailing_ones_def by (rule order_trans[OF length_takeWhile_le]) simp

lemma unat_r: "unat (r x) = trailing_ones x"
  using trailing_ones_le[of x] by (simp add: r_trailing unat_of_nat)


text \<open>
  Claim C3. \<open>R x\<close> is \<open>NOT x AND (x + 1)\<close>; it equals \<open>2 ^ i\<close> for the index \<open>i\<close> of the
  least-significant cleared bit of \<open>x\<close>. \<open>r x\<close> is the population count of \<open>R x - 1\<close> and
  is the number of trailing one bits of \<open>x\<close>, so \<open>r 0 = 0\<close>, \<open>r 1 = 1\<close>, \<open>r 3 = 2\<close>,
  \<open>r 5 = 1\<close> and \<open>r 0xFFFFFFFF = 32\<close>; for the all-ones word \<open>R\<close> wraps around to 0 and
  \<open>0 - 1\<close> wraps around to the all-ones word, whose population count is 32.
\<close>

theorem bit_rank_utilities:
  "R x = NOT x AND (x + 1)
   \<and> (\<forall>i<32. \<not> bit x i \<and> (\<forall>j<i. bit x j) \<longrightarrow> R x = 2 ^ i \<and> r x = of_nat i)
   \<and> r x = p (R x - 1)
   \<and> unat (r x) = trailing_ones x
   \<and> r 0 = 0 \<and> r 1 = 1 \<and> r 3 = 2 \<and> r 5 = 1 \<and> r 0xFFFFFFFF = 32
   \<and> R 0xFFFFFFFF = 0 \<and> (0 :: u32) - 1 = 0xFFFFFFFF \<and> p 0xFFFFFFFF = 32"
proof -
  have conc: "r 0 = 0" "r 1 = 1" "r 3 = 2" "r 5 = 1" "r 0xFFFFFFFF = 32" "p 0xFFFFFFFF = 32"
    by (simp_all add: r_def R_def p_def builtin_popcount_def eval_nat_numeral)
  have "R 0xFFFFFFFF = 0" "(0 :: u32) - 1 = 0xFFFFFFFF"
    by (simp_all add: R_def)
  with conc show ?thesis
    by (simp add: R_lowest r_lowest unat_r) (simp add: R_def r_def)
qed

theorem bit_rank_utilities_witness:
  "(1 :: nat) < 32 \<and> \<not> bit (5 :: u32) 1 \<and> bit (5 :: u32) 0
   \<and> R 5 = 2 \<and> r 5 = 1 \<and> trailing_ones 5 = 1"
proof -
  have h: "\<not> bit (5 :: u32) 1 \<and> (\<forall>j<1. bit (5 :: u32) j)"
    by simp
  have "\<forall>i<32. \<not> bit (5 :: u32) i \<and> (\<forall>j<i. bit (5 :: u32) j) \<longrightarrow> R 5 = 2 ^ i \<and> r 5 = of_nat i"
    and t: "unat (r 5) = trailing_ones 5"
    using bit_rank_utilities [of 5] by blast+
  with h have "R 5 = 2 ^ 1 \<and> r 5 = of_nat 1"
    by (metis one_less_numeral_iff semiring_norm(76))
  then have rk: "R 5 = 2" "r 5 = 1"
    by simp_all
  from t have "trailing_ones 5 = 1"
    unfolding rk by simp
  with rk show ?thesis
    by simp
qed

section \<open>The loops and the operations in closed form\<close>

lemma for_loop_fold:
  assumes "I acc"
    and "\<And>j a. k \<le> j \<Longrightarrow> j < M \<Longrightarrow> I a \<Longrightarrow> body j a = Inr (g j a) \<and> I (g j a)"
  shows "for_loop k M body acc = Inr (fold g [k..<M] acc)"
  using assms
proof (induction k M body acc rule: for_loop.induct)
  case (1 k M body acc)
  show ?case
  proof (cases "k < M")
    case True
    from "1.prems" True have b: "body k acc = Inr (g k acc)" and i: "I (g k acc)"
      by auto
    have "for_loop (k + 1) M body (g k acc) = Inr (fold g [k + 1..<M] (g k acc))"
      using True b i "1.prems"(2) by (intro "1.IH") auto
    with True b show ?thesis
      by (subst for_loop.simps) (simp add: upt_conv_Cons)
  next
    case False
    then show ?thesis
      by (subst for_loop.simps) simp
  qed
qed

lemma fold_zero_prefix:
  "k \<le> length mem \<Longrightarrow>
     fold (\<lambda>j s. s[j := 0 :: u32]) [0..<k] mem = replicate k 0 @ drop k mem"
proof (induction k)
  case 0
  then show ?case by simp
next
  case (Suc k)
  then have k: "k < length mem" by simp
  have "drop k mem = mem ! k # drop (Suc k) mem"
    using k by (simp add: Cons_nth_drop_Suc)
  then have "(replicate k (0 :: u32) @ drop k mem)[k := 0]
               = replicate k 0 @ 0 # drop (Suc k) mem"
    by (simp add: list_update_append)
  also have "\<dots> = replicate (Suc k) 0 @ drop (Suc k) mem"
    by (simp add: replicate_app_Cons_same)
  finally show ?case
    using Suc by simp
qed

lemma zero_fill:
  assumes "length mem = M"
  shows "for_loop 0 M (\<lambda>k sketch. write_reg sketch k 0) mem = Inr (replicate M 0)"
proof -
  have "for_loop 0 M (\<lambda>k sketch. write_reg sketch k 0) mem
          = Inr (fold (\<lambda>j s. s[j := 0]) [0..<M] mem)"
    using assms
    by (intro for_loop_fold[where I = "\<lambda>s. length s = M"]) (auto simp: write_reg_def)
  with assms show ?thesis
    by (simp add: fold_zero_prefix)
qed

lemma fold_add_sum_list:
  fixes f :: "'b \<Rightarrow> 'a :: comm_monoid_add"
  shows "fold (\<lambda>v a. a + f v) xs a0 = a0 + sum_list (map f xs)"
  by (induction xs arbitrary: a0) (simp_all add: add.assoc)

lemma acc_loop:
  assumes "length sketch = M"
  shows "for_loop 0 M (\<lambda>k sm. case read_reg sketch k of
                                 Inl e \<Rightarrow> Inl e
                               | Inr v \<Rightarrow> Inr (g sm v)) a0
           = Inr (fold (\<lambda>v a. g a v) sketch a0)"
proof -
  have "for_loop 0 M (\<lambda>k sm. case read_reg sketch k of
                                 Inl e \<Rightarrow> Inl e
                               | Inr v \<Rightarrow> Inr (g sm v)) a0
          = Inr (fold (\<lambda>j a. g a (sketch ! j)) [0..<M] a0)"
    using assms
    by (intro for_loop_fold[where I = "\<lambda>_. True"]) (auto simp: read_reg_def)
  also have "fold (\<lambda>j a. g a (sketch ! j)) [0..<M] a0
               = fold (\<lambda>v a. g a v) (map (nth sketch) [0..<length sketch]) a0"
    unfolding assms[symmetric] by (simp add: fold_map comp_def)
  finally show ?thesis
    by (simp add: map_nth)
qed

lemma bucket_in_range:
  fixes M :: u32
  shows "M \<noteq> 0 \<Longrightarrow> unat (h mod M) < unat M"
  by (simp add: unat_mod_distrib word_neq_0_conv unat_gt_0)

lemma sa_new_ok: "length mem = unat M \<Longrightarrow> sa_new M mem = Inr (replicate (unat M) 0)"
  by (simp add: sa_new_def zero_fill)

lemma ll_new_ok: "length mem = unat M \<Longrightarrow> ll_new M mem = Inr (replicate (unat M) 0)"
  by (simp add: ll_new_def zero_fill)

lemma hll_new_ok: "length mem = unat M \<Longrightarrow> hll_new M mem = Inr (replicate (unat M) 0)"
  by (simp add: hll_new_def zero_fill)

lemma sa_item_ok:
  assumes "sketch_ok M s"
  shows "sa_item mh h M s x
           = Inr (s[unat (mh x mod M) := s ! unat (mh x mod M) OR R (h x)])"
  using assms bucket_in_range[of M "mh x"]
  by (simp add: sa_item_def sketch_ok_def urem_def read_reg_def write_reg_def)

lemma ll_item_ok:
  assumes "sketch_ok M s"
  shows "ll_item mh h M s x
           = Inr (s[unat (mh x mod M) := max (s ! unat (mh x mod M)) (r (h x))])"
  using assms bucket_in_range[of M "mh x"]
  by (auto simp: ll_item_def sketch_ok_def urem_def read_reg_def write_reg_def Let_def max_def)

lemma hll_item_ok:
  assumes "sketch_ok M s"
  shows "hll_item mh h M s x
           = Inr (s[unat (mh x mod M) := max (s ! unat (mh x mod M)) (r (h x))])"
  using assms bucket_in_range[of M "mh x"]
  by (auto simp: hll_item_def sketch_ok_def urem_def read_reg_def write_reg_def Let_def max_def)

lemma sa_sum_eq: "length s = unat M \<Longrightarrow> sa_sum M s = Inr (sum_list (map r s))"
  by (simp add: sa_sum_def acc_loop fold_add_sum_list)

lemma ll_sum_eq: "length s = unat M \<Longrightarrow> ll_sum M s = Inr (sum_list (map R s))"
  by (simp add: ll_sum_def acc_loop fold_add_sum_list)

lemma hll_sum_eq:
  "length s = unat M \<Longrightarrow>
     hll_sum fp M s
       = Inr (fold (\<lambda>v a. fadd fp a (pow fp (lit fp 2) (fsub fp (lit fp (- 1)) (of_u32 fp v))))
                s (lit fp 0))"
  by (simp add: hll_sum_def acc_loop)

lemma sa_count_eq:
  assumes "length s = unat M"
  shows "sa_count fp M s
           = (Inr (to_size_t fp
                (fdiv fp
                   (fmul fp (of_u32 fp M)
                      (pow fp (lit fp 2)
                         (fdiv fp (of_u32 fp (sum_list (map r s))) (of_u32 fp M))))
                   (kPhi fp))), s)"
  by (simp add: sa_count_def sa_sum_eq[OF assms])

lemma ll_count_eq:
  assumes "length s = unat M"
  shows "ll_count fp M s
           = (Inr (to_size_t fp
                (fmul fp
                   (fmul fp (of_u32 fp M)
                      (pow fp (lit fp 2)
                         (fadd fp (fdiv fp (of_u32 fp (sum_list (map R s))) (of_u32 fp M))
                            (lit fp 1))))
                   (kPhi fp))), s)"
  by (simp add: ll_count_def ll_sum_eq[OF assms])

lemma hll_count_eq:
  assumes "length s = unat M"
  shows "hll_count fp M s
           = (Inr (to_size_t fp
                (fdiv fp (fmul fp (of_u32 fp (M * M)) (kPhi fp))
                   (fold (\<lambda>v a. fadd fp a (pow fp (lit fp 2) (fsub fp (lit fp (- 1)) (of_u32 fp v))))
                      s (lit fp 0)))), s)"
  by (simp add: hll_count_def hll_sum_eq[OF assms])

lemma real_fpu_simps [simp]:
  "lit real_fpu x = x" "of_u32 real_fpu w = real (unat w)"
  "fadd real_fpu a b = a + b" "fsub real_fpu a b = a - b"
  "fmul real_fpu a b = a * b" "fdiv real_fpu a b = a / b"
  "pow real_fpu a b = a powr b" "to_size_t real_fpu a = nat \<lfloor>a\<rfloor>"
  "kPhi real_fpu = 77351 / 100000"
  by (simp_all add: real_fpu_def kPhi_def)

lemma hll_sum_real:
  "length s = unat M \<Longrightarrow>
     hll_sum real_fpu M s = Inr (\<Sum>v\<leftarrow>s. 2 powr (- 1 - real (unat v)))"
  by (simp add: hll_sum_eq fold_add_sum_list)

lemma unat_sum_list:
  fixes f :: "'a \<Rightarrow> u32"
  shows "unat (sum_list (map f xs)) = (\<Sum>x\<leftarrow>xs. unat (f x)) mod 2 ^ 32"
  by (induction xs) (simp_all add: unat_word_ariths mod_add_right_eq)

lemma unat_two_power:
  assumes "i < 32"
  shows "unat (2 ^ i :: u32) = 2 ^ i"
proof -
  have "unat (of_nat (2 ^ i) :: u32) = 2 ^ i mod 2 ^ 32"
    by (simp only: unat_of_nat) simp
  moreover have "(2 :: nat) ^ i < 2 ^ 32"
    using assms by (intro power_strict_increasing) simp_all
  ultimately show ?thesis
    by simp
qed

lemma unat_R: "unat (R v) = 2 ^ trailing_ones v mod 2 ^ 32"
proof (cases "v = - 1")
  case True
  then show ?thesis by (simp add: R_all_ones trailing_ones_all_ones)
next
  case False
  from lowest_clear_ex[OF this] obtain i where i: "i < 32" "\<not> bit v i" "\<forall>j<i. bit v j" by blast
  then have "unat (R v) = 2 ^ i"
    by (simp add: R_lowest unat_two_power)
  moreover have "(2 :: nat) ^ i < 2 ^ 32"
    using i(1) by (intro power_strict_increasing) simp_all
  ultimately show ?thesis
    using i by (simp add: trailing_ones_lowest)
qed

lemma sum_trailing_ones_le: "(\<Sum>v\<leftarrow>s. trailing_ones v) \<le> 32 * length s"
  by (induction s) (use trailing_ones_le in \<open>auto simp: add_mono\<close>)


section \<open>Construction\<close>

text \<open>
  Claim C9 says that a bucketed estimator with \<open>M = 0\<close> is rejected when it is
  constructed. No constructor looks at \<open>M\<close>: with \<open>M = 0\<close> the zeroing loop runs no
  iteration and the constructor returns an estimator with no register.
\<close>

theorem construction_with_zero_buckets_counterexample:
  "sa_new 0 [] = Inr [] \<and> ll_new 0 [] = Inr [] \<and> hll_new 0 [] = Inr []"
  by (simp add: sa_new_def ll_new_def hll_new_def for_loop.simps)

text \<open>
  Claim C9, amended. For every \<open>M\<close>, zero included, the constructor of each bucketed
  variant succeeds and leaves \<open>M\<close> registers, all zero, whatever the array held before.
  With \<open>M = 0\<close> the failure comes later and is not a rejection: every \<open>item\<close> divides by
  zero in the integer remainder \<^verbatim>\<open>% M\<close>.
\<close>

theorem construction_never_rejects:
  assumes "length mem = unat M"
  shows "sa_new M mem = Inr (replicate (unat M) 0)
         \<and> ll_new M mem = Inr (replicate (unat M) 0)
         \<and> hll_new M mem = Inr (replicate (unat M) 0)
         \<and> sa_item mh h 0 sketch x = Inl DivisionByZero
         \<and> ll_item mh h 0 sketch x = Inl DivisionByZero
         \<and> hll_item mh h 0 sketch x = Inl DivisionByZero"
  using assms
  by (simp add: sa_new_ok ll_new_ok hll_new_ok sa_item_def ll_item_def hll_item_def urem_def)

theorem construction_never_rejects_witness:
  "length [7, 8, 9 :: u32] = unat (3 :: u32)
   \<and> sa_new 3 [7, 8, 9] = Inr [0, 0, 0]
   \<and> ll_new 3 [7, 8, 9] = Inr [0, 0, 0]
   \<and> hll_new 3 [7, 8, 9] = Inr [0, 0, 0]"
proof -
  have len: "length [7, 8, 9 :: u32] = unat (3 :: u32)"
    by simp
  have "unat (3 :: u32) = Suc (Suc (Suc 0))"
    by simp
  then have rep: "replicate (unat (3 :: u32)) (0 :: u32) = [0, 0, 0]"
    by (simp only: replicate.simps)
  from construction_never_rejects [OF len, of "\<lambda>s. 0" "\<lambda>s. 0" "[]" "''a''"]
  have "sa_new 3 [7, 8, 9] = Inr (replicate (unat (3 :: u32)) 0)"
    "ll_new 3 [7, 8, 9] = Inr (replicate (unat (3 :: u32)) 0)"
    "hll_new 3 [7, 8, 9] = Inr (replicate (unat (3 :: u32)) 0)"
    by blast+
  then show ?thesis
    unfolding rep using len by simp
qed

section \<open>Bucket routing\<close>

text \<open>
  Claim C10. For a bucketed variant with \<open>M \<ge> 1\<close>, the bucket index, the 32-bit bucket
  hash reduced modulo \<open>M\<close>, is below \<open>M\<close>: the read and the write of \<open>item\<close> hit one of
  the \<open>M\<close> registers, \<open>item\<close> returns a sketch of \<open>M\<close> registers again, and every read of
  the loop of \<open>count\<close> is inside the array.
\<close>

theorem bucket_index_in_range:
  assumes "sketch_ok M sketch"
  shows "(\<exists>k. urem (mh x) M = Inr k \<and> unat k < unat M \<and> unat k < length sketch
              \<and> read_reg sketch (unat k) = Inr (sketch ! unat k)
              \<and> write_reg sketch (unat k) v = Inr (sketch[unat k := v]))
         \<and> (\<exists>s'. sa_item mh h M sketch x = Inr s' \<and> sketch_ok M s')
         \<and> (\<exists>s'. ll_item mh h M sketch x = Inr s' \<and> sketch_ok M s')
         \<and> (\<exists>s'. hll_item mh h M sketch x = Inr s' \<and> sketch_ok M s')
         \<and> (\<forall>k<unat M. read_reg sketch k = Inr (sketch ! k))
         \<and> fst (sa_count fp M sketch) \<noteq> Inl OutOfBounds
         \<and> fst (ll_count fp M sketch) \<noteq> Inl OutOfBounds
         \<and> fst (hll_count fp M sketch) \<noteq> Inl OutOfBounds"
proof -
  from assms have len: "length sketch = unat M"
    by (simp add: sketch_ok_def)
  show ?thesis
    using assms bucket_in_range[of M "mh x"]
    by (simp add: sa_item_ok ll_item_ok hll_item_ok
          sa_count_eq[OF len] ll_count_eq[OF len] hll_count_eq[OF len])
       (simp add: sketch_ok_def urem_def read_reg_def write_reg_def)
qed

theorem bucket_index_in_range_witness:
  "sketch_ok 3 [0, 0, 0]
   \<and> urem (of_nat (length ''abcde'')) 3 = Inr 2
   \<and> unat (2 :: u32) < unat (3 :: u32)
   \<and> read_reg [0, 0, 0] 2 = Inr 0
   \<and> fst (sa_count real_fpu 3 [0, 0, 0]) \<noteq> Inl OutOfBounds"
proof -
  have ok: "sketch_ok 3 [0, 0, 0]"
    by (simp add: sketch_ok_def)
  from bucket_index_in_range [OF ok, of "\<lambda>s. of_nat (length s)" "''abcde''" _ _ real_fpu]
  have "fst (sa_count real_fpu 3 [0, 0, 0]) \<noteq> Inl OutOfBounds"
    by blast
  then show ?thesis
    using ok by (simp add: urem_def read_reg_def)
qed

text \<open>
  Claim C8. For a bucketed variant with \<open>M \<ge> 1\<close>, \<open>item\<close> changes at most the register
  at index \<open>murmurhash3_32 x mod M\<close>: the sketch keeps its \<open>M\<close> registers and every
  register at another index keeps its value.
\<close>

theorem ingest_touches_one_register:
  assumes "sketch_ok M sketch"
  shows "\<exists>s1 s2 s3.
           sa_item mh h M sketch x = Inr s1 \<and> ll_item mh h M sketch x = Inr s2
           \<and> hll_item mh h M sketch x = Inr s3
           \<and> length s1 = unat M \<and> length s2 = unat M \<and> length s3 = unat M
           \<and> unat (mh x mod M) < unat M
           \<and> (\<forall>j<unat M. j \<noteq> unat (mh x mod M) \<longrightarrow>
                 s1 ! j = sketch ! j \<and> s2 ! j = sketch ! j \<and> s3 ! j = sketch ! j)"
  using assms bucket_in_range[of M "mh x"]
  by (simp add: sa_item_ok ll_item_ok hll_item_ok) (simp add: sketch_ok_def)

theorem ingest_touches_one_register_witness:
  "sketch_ok 2 [4, 5]
   \<and> unat ((of_nat (length ''a'') :: u32) mod 2) = 1
   \<and> sa_item (\<lambda>s. of_nat (length s)) (\<lambda>s. 1023) 2 [4, 5] ''a'' = Inr [4, 1029]
   \<and> ll_item (\<lambda>s. of_nat (length s)) (\<lambda>s. 1023) 2 [4, 5] ''a'' = Inr [4, 10]
   \<and> hll_item (\<lambda>s. of_nat (length s)) (\<lambda>s. 1023) 2 [4, 5] ''a'' = Inr [4, 10]"
proof -
  have ok: "sketch_ok 2 [4, 5]"
    by (simp add: sketch_ok_def)
  have rk: "r 1023 = 10" "R 1023 = 1024"
    by (simp_all add: r_def R_def p_def builtin_popcount_def eval_nat_numeral)
  from ingest_touches_one_register [OF ok, of "\<lambda>s. of_nat (length s)" "\<lambda>s. 1023" "''a''"]
  obtain s1 s2 s3 where
    "sa_item (\<lambda>s. of_nat (length s)) (\<lambda>s. 1023) 2 [4, 5] ''a'' = Inr s1"
    "ll_item (\<lambda>s. of_nat (length s)) (\<lambda>s. 1023) 2 [4, 5] ''a'' = Inr s2"
    "hll_item (\<lambda>s. of_nat (length s)) (\<lambda>s. 1023) 2 [4, 5] ''a'' = Inr s3"
    by blast
  then show ?thesis
    using ok
    by (simp add: sa_item_def ll_item_def hll_item_def urem_def read_reg_def write_reg_def rk)
qed


section \<open>Ingestion: order, duplicates and monotonicity\<close>

lemmas item_closed = pcsa_item_def sa_item_ok ll_item_ok hll_item_ok

lemma item_est_ok:
  assumes "est_ok e"
  shows "item_est mh h e x = Inr (projr (item_est mh h e x))"
    and "est_ok (projr (item_est mh h e x))"
proof -
  show "item_est mh h e x = Inr (projr (item_est mh h e x))"
    using assms by (cases e) (simp_all add: item_closed)
  show "est_ok (projr (item_est mh h e x))"
    using assms by (cases e) (simp_all add: item_closed, simp_all add: sketch_ok_def)
qed

lemma update_or_commute:
  fixes s :: "u32 list"
  assumes "i < length s" "j < length s"
  shows "(s[i := s ! i OR a])[j := (s[i := s ! i OR a]) ! j OR b]
           = (s[j := s ! j OR b])[i := (s[j := s ! j OR b]) ! i OR a]"
proof (cases "i = j")
  case True
  with assms show ?thesis by (simp add: or.assoc or.commute or.left_commute)
next
  case False
  with assms show ?thesis by (simp add: list_update_swap[of i j])
qed

lemma update_max_commute:
  fixes s :: "u32 list"
  assumes "i < length s" "j < length s"
  shows "(s[i := max (s ! i) a])[j := max ((s[i := max (s ! i) a]) ! j) b]
           = (s[j := max (s ! j) b])[i := max ((s[j := max (s ! j) b]) ! i) a]"
proof (cases "i = j")
  case True
  with assms show ?thesis by (simp add: max.assoc max.commute max.left_commute)
next
  case False
  with assms show ?thesis by (simp add: list_update_swap[of i j])
qed

lemma item_est_commute:
  assumes "est_ok e"
  shows "projr (item_est mh h (projr (item_est mh h e x)) y)
           = projr (item_est mh h (projr (item_est mh h e y)) x)"
proof (cases e)
  case (PCSA sk)
  then show ?thesis by (simp add: item_closed or.assoc or.commute or.left_commute)
next
  case (StochasticAveraging M s)
  with assms have ok: "sketch_ok M s" by simp
  then have ok': "sketch_ok M (s[i := v])" for i v by (simp add: sketch_ok_def)
  from ok have "unat (mh x mod M) < length s" "unat (mh y mod M) < length s"
    using bucket_in_range[of M] by (simp_all add: sketch_ok_def)
  then show ?thesis
    unfolding StochasticAveraging
    by (simp add: item_closed ok ok' update_or_commute)
next
  case (LogLog M s)
  with assms have ok: "sketch_ok M s" by simp
  then have ok': "sketch_ok M (s[i := v])" for i v by (simp add: sketch_ok_def)
  from ok have "unat (mh x mod M) < length s" "unat (mh y mod M) < length s"
    using bucket_in_range[of M] by (simp_all add: sketch_ok_def)
  then show ?thesis
    unfolding LogLog
    by (simp add: item_closed ok ok' update_max_commute)
next
  case (HyperLogLog M s)
  with assms have ok: "sketch_ok M s" by simp
  then have ok': "sketch_ok M (s[i := v])" for i v by (simp add: sketch_ok_def)
  from ok have "unat (mh x mod M) < length s" "unat (mh y mod M) < length s"
    using bucket_in_range[of M] by (simp_all add: sketch_ok_def)
  then show ?thesis
    unfolding HyperLogLog
    by (simp add: item_closed ok ok' update_max_commute)
qed

lemma item_est_idem:
  assumes "est_ok e"
  shows "projr (item_est mh h (projr (item_est mh h e x)) x) = projr (item_est mh h e x)"
proof (cases e)
  case (PCSA sk)
  then show ?thesis by (simp add: item_closed or.assoc)
next
  case (StochasticAveraging M s)
  with assms have ok: "sketch_ok M s" by simp
  then have ok': "sketch_ok M (s[i := v])" for i v by (simp add: sketch_ok_def)
  from ok have "unat (mh x mod M) < length s"
    using bucket_in_range[of M] by (simp_all add: sketch_ok_def)
  then show ?thesis
    unfolding StochasticAveraging
    by (simp add: item_closed ok ok' or.assoc)
next
  case (LogLog M s)
  with assms have ok: "sketch_ok M s" by simp
  then have ok': "sketch_ok M (s[i := v])" for i v by (simp add: sketch_ok_def)
  from ok have "unat (mh x mod M) < length s"
    using bucket_in_range[of M] by (simp_all add: sketch_ok_def)
  then show ?thesis
    unfolding LogLog
    by (simp add: item_closed ok ok')
next
  case (HyperLogLog M s)
  with assms have ok: "sketch_ok M s" by simp
  then have ok': "sketch_ok M (s[i := v])" for i v by (simp add: sketch_ok_def)
  from ok have "unat (mh x mod M) < length s"
    using bucket_in_range[of M] by (simp_all add: sketch_ok_def)
  then show ?thesis
    unfolding HyperLogLog
    by (simp add: item_closed ok ok')
qed


lemma ingest_fold:
  assumes "est_ok e"
  shows "ingest mh h e xs = Inr (fold (\<lambda>x e. projr (item_est mh h e x)) xs e)
         \<and> est_ok (fold (\<lambda>x e. projr (item_est mh h e x)) xs e)"
  using assms
proof (induction xs arbitrary: e)
  case Nil
  then show ?case by simp
next
  case (Cons x xs)
  from item_est_ok[OF Cons.prems, of mh h x]
  have st: "item_est mh h e x = Inr (projr (item_est mh h e x))"
    and ok: "est_ok (projr (item_est mh h e x))"
    by simp_all
  have "ingest mh h e (x # xs) = ingest mh h (projr (item_est mh h e x)) xs"
    by (subst ingest.simps, subst st) simp
  with Cons.IH[OF ok] show ?case
    by simp
qed

lemma fold_commute_inv:
  assumes inv: "\<And>s x. I s \<Longrightarrow> I (f x s)"
    and comm: "\<And>s x y. I s \<Longrightarrow> f x (f y s) = f y (f x s)"
    and "I s"
  shows "f x (fold f ys s) = fold f ys (f x s)"
  using \<open>I s\<close>
proof (induction ys arbitrary: s)
  case Nil
  then show ?case by simp
next
  case (Cons y ys)
  then show ?case by (simp add: inv comm[of s x y])
qed

lemma fold_perm_inv:
  assumes inv: "\<And>s x. I s \<Longrightarrow> I (f x s)"
    and comm: "\<And>s x y. I s \<Longrightarrow> f x (f y s) = f y (f x s)"
    and "I s" and "mset xs = mset ys"
  shows "fold f xs s = fold f ys s"
  using \<open>I s\<close> \<open>mset xs = mset ys\<close>
proof (induction xs arbitrary: ys s)
  case Nil
  then show ?case by simp
next
  case (Cons x xs)
  from Cons.prems(2) have "x \<in> set ys"
    by (metis list.set_intros(1) mset_eq_setD)
  then obtain ys1 ys2 where ys: "ys = ys1 @ x # ys2"
    by (auto dest: split_list)
  with Cons.prems(2) have m: "mset xs = mset (ys1 @ ys2)"
    by simp
  have "fold f ys s = fold f ys2 (f x (fold f ys1 s))"
    by (simp add: ys)
  also have "f x (fold f ys1 s) = fold f ys1 (f x s)"
    using inv comm Cons.prems(1) by (rule fold_commute_inv)
  also have "fold f ys2 (fold f ys1 (f x s)) = fold f (ys1 @ ys2) (f x s)"
    by simp
  also have "\<dots> = fold f xs (f x s)"
    using Cons.IH[OF inv[OF Cons.prems(1)] m] by simp
  finally show ?case by simp
qed

lemma fold_replicate_idem:
  assumes inv: "\<And>s. I s \<Longrightarrow> I (f x s)"
    and idem: "\<And>s. I s \<Longrightarrow> f x (f x s) = f x s"
    and "I s"
  shows "fold f (replicate (Suc n) x) s = f x s"
  using \<open>I s\<close>
proof (induction n arbitrary: s)
  case 0
  then show ?case by simp
next
  case (Suc n)
  have "fold f (replicate (Suc (Suc n)) x) s = fold f (replicate (Suc n) x) (f x s)"
    by simp
  also have "\<dots> = f x (f x s)"
    by (rule Suc.IH) (rule inv[OF Suc.prems])
  finally show ?case
    by (simp add: idem[OF Suc.prems])
qed


lemma update_mono:
  fixes s :: "u32 list"
  assumes "s ! i \<le> v"
  shows "\<forall>k<length s. s ! k \<le> s[i := v] ! k"
proof (intro allI impI)
  fix k
  assume "k < length s"
  with assms show "s ! k \<le> s[i := v] ! k"
    by (cases "i = k") simp_all
qed

lemma update_or_keeps_bits:
  fixes s :: "u32 list"
  shows "\<forall>k<length s. s ! k AND s[i := s ! i OR a] ! k = s ! k"
proof (intro allI impI)
  fix k
  assume "k < length s"
  then show "s ! k AND s[i := s ! i OR a] ! k = s ! k"
    by (cases "i = k") simp_all
qed

lemma count_keeps_state:
  "snd (pcsa_count fp sk) = sk" "snd (sa_count fp M s) = s" "snd (ll_count fp M s) = s"
  "snd (hll_count fp M s) = s" "snd (count_est fp e) = e"
  by (simp_all add: pcsa_count_def sa_count_def ll_count_def hll_count_def)
     (cases e; simp add: pcsa_count_def sa_count_def ll_count_def hll_count_def)

lemma reachable_est_ok: "reachable mh h e \<Longrightarrow> est_ok e"
proof (induction rule: reachable.induct)
  case new_pcsa
  then show ?case by simp
next
  case (new_sa M mem sketch)
  then show ?case by (simp add: sa_new_ok sketch_ok_def) auto
next
  case (new_ll M mem sketch)
  then show ?case by (simp add: ll_new_ok sketch_ok_def) auto
next
  case (new_hll M mem sketch)
  then show ?case by (simp add: hll_new_ok sketch_ok_def) auto
next
  case (after_item e s e')
  with item_est_ok[of e mh h s] show ?case by simp
qed

text \<open>
  Claim C7. For every variant, every reachable state and every item, \<open>item\<close>
  succeeds, keeps the number of registers, and leaves each register at least as large
  as before (unsigned order); a bitmap register of PCSA and of stochastic averaging
  keeps every bit it had. \<open>count\<close> returns the state it was given: it changes no
  register and nothing else of the estimator.
\<close>

theorem registers_monotone:
  assumes "reachable mh h e"
  shows "est_ok e
         \<and> (\<exists>e'. item_est mh h e x = Inr e' \<and> reachable mh h e'
               \<and> length (registers e') = length (registers e)
               \<and> (\<forall>k<length (registers e). registers e ! k \<le> registers e' ! k))
         \<and> sk \<le> pcsa_item h sk x \<and> sk AND pcsa_item h sk x = sk
         \<and> (sketch_ok M s \<longrightarrow>
               (\<exists>s'. sa_item mh h M s x = Inr s' \<and> (\<forall>k<length s. s ! k AND s' ! k = s ! k)))
         \<and> snd (count_est fp e) = e
         \<and> snd (pcsa_count fp sk) = sk \<and> snd (sa_count fp M s) = s
         \<and> snd (ll_count fp M s) = s \<and> snd (hll_count fp M s) = s"
proof -
  from assms have ok: "est_ok e"
    by (rule reachable_est_ok)
  have "\<exists>e'. item_est mh h e x = Inr e' \<and> est_ok e'
               \<and> length (registers e') = length (registers e)
               \<and> (\<forall>k<length (registers e). registers e ! k \<le> registers e' ! k)"
  proof (cases e)
    case (PCSA sk)
    then show ?thesis by (simp add: item_closed le_word_or2)
  next
    case (StochasticAveraging M s)
    with ok show ?thesis
      by (simp add: item_closed update_mono le_word_or2) (simp add: sketch_ok_def)
  next
    case (LogLog M s)
    with ok show ?thesis
      by (simp add: item_closed update_mono) (simp add: sketch_ok_def)
  next
    case (HyperLogLog M s)
    with ok show ?thesis
      by (simp add: item_closed update_mono) (simp add: sketch_ok_def)
  qed
  then have "\<exists>e'. item_est mh h e x = Inr e' \<and> reachable mh h e'
               \<and> length (registers e') = length (registers e)
               \<and> (\<forall>k<length (registers e). registers e ! k \<le> registers e' ! k)"
    using assms by (blast intro: reachable.after_item)
  moreover have "sk \<le> pcsa_item h sk x" "sk AND pcsa_item h sk x = sk"
    by (simp_all add: pcsa_item_def le_word_or2)
  moreover have "sketch_ok M s \<longrightarrow>
      (\<exists>s'. sa_item mh h M s x = Inr s' \<and> (\<forall>k<length s. s ! k AND s' ! k = s ! k))"
    by (simp add: item_closed update_or_keeps_bits)
  ultimately show ?thesis
    using ok by (simp add: count_keeps_state)
qed

theorem registers_monotone_witness:
  "reachable (\<lambda>s. of_nat (length s)) (\<lambda>s. 1023) (LogLog 2 [0, 0])
   \<and> item_est (\<lambda>s. of_nat (length s)) (\<lambda>s. 1023) (LogLog 2 [0, 0]) ''a'' = Inr (LogLog 2 [0, 10])
   \<and> reachable (\<lambda>s. of_nat (length s)) (\<lambda>s. 1023) (LogLog 2 [0, 10])
   \<and> (0 :: u32) \<le> 0 \<and> (0 :: u32) \<le> 10
   \<and> sketch_ok 2 [4, 5]
   \<and> sa_item (\<lambda>s. of_nat (length s)) (\<lambda>s. 1023) 2 [4, 5] ''a'' = Inr [4, 1029]
   \<and> (5 :: u32) AND 1029 = 5
   \<and> snd (count_est real_fpu (LogLog 2 [0, 0])) = LogLog 2 [0, 0]"
proof -
  let ?mh = "\<lambda>s :: string. of_nat (length s) :: u32"
  let ?h = "\<lambda>s :: string. 1023 :: u32"
  have "unat (2 :: u32) = Suc (Suc 0)"
    by simp
  then have rep: "replicate (unat (2 :: u32)) (0 :: u32) = [0, 0]"
    by (simp only: replicate.simps)
  have "ll_new 2 [8, 9] = Inr [0, 0]"
    using ll_new_ok[of "[8, 9]" 2] unfolding rep by simp
  then have re: "reachable ?mh ?h (LogLog 2 [0, 0])"
    by (intro reachable.new_ll[where mem = "[8, 9]"]) simp_all
  have ok: "sketch_ok 2 [4, 5]"
    by (simp add: sketch_ok_def)
  have rk: "r 1023 = 10" "R 1023 = 1024"
    by (simp_all add: r_def R_def p_def builtin_popcount_def eval_nat_numeral)
  have it: "item_est ?mh ?h (LogLog 2 [0, 0]) ''a'' = Inr (LogLog 2 [0, 10])"
    by (simp add: ll_item_def urem_def read_reg_def write_reg_def rk)
  from registers_monotone [OF re, of "''a''" 0 2 "[4, 5]" real_fpu] it
  have "reachable ?mh ?h (LogLog 2 [0, 10])"
    and "snd (count_est real_fpu (LogLog 2 [0, 0])) = LogLog 2 [0, 0]"
    by auto
  then show ?thesis
    using re it ok
    by (simp add: sa_item_def urem_def read_reg_def write_reg_def rk)
qed

text \<open>
  Claim C6. For every variant and from every reachable state (a freshly constructed
  estimator is one), ingesting two lists with the same multiset of items succeeds with
  the same estimator, hence the same registers and the same estimate; ingesting one
  item \<open>N \<ge> 1\<close> times gives the estimator that ingesting it once gives. The update is
  commutative (\<open>[x, y]\<close> against \<open>[y, x]\<close>) and idempotent (\<open>[x, x]\<close> against \<open>[x]\<close>).
\<close>

theorem ingest_order_and_duplicates:
  assumes "reachable mh h e"
  shows "(\<exists>e'. ingest mh h e xs = Inr e' \<and> reachable mh h e')
         \<and> (mset xs = mset ys \<longrightarrow>
               (\<exists>e'. ingest mh h e xs = Inr e' \<and> ingest mh h e ys = Inr e'))
         \<and> (0 < N \<longrightarrow>
               (\<exists>e'. ingest mh h e (replicate N x) = Inr e' \<and> ingest mh h e [x] = Inr e'))
         \<and> (\<exists>e'. ingest mh h e [x, y] = Inr e' \<and> ingest mh h e [y, x] = Inr e')
         \<and> (\<exists>e'. ingest mh h e [x, x] = Inr e' \<and> ingest mh h e [x] = Inr e')"
proof -
  let ?f = "\<lambda>x e. projr (item_est mh h e x)"
  from assms have ok: "est_ok e"
    by (rule reachable_est_ok)
  have inv: "est_ok (?f x e)" if "est_ok e" for x e
    using that by (rule item_est_ok)
  have comm: "?f x (?f y e) = ?f y (?f x e)" if "est_ok e" for x y e
    using that by (rule item_est_commute[symmetric])
  have idem: "?f x (?f x e) = ?f x e" if "est_ok e" for x e
    using that by (rule item_est_idem)
  have perm: "fold ?f xs e = fold ?f ys e" if "mset xs = mset ys" for xs ys
    using inv comm ok that by (rule fold_perm_inv[where I = est_ok])
  have dup: "fold ?f (replicate N x) e = fold ?f [x] e" if "0 < N"
  proof -
    from that obtain n where "N = Suc n"
      by (cases N) simp_all
    then show ?thesis
      using fold_replicate_idem[where I = est_ok and f = ?f and x = x and s = e and n = n]
        inv idem ok by simp
  qed
  have run: "ingest mh h e zs = Inr (fold ?f zs e)" "est_ok (fold ?f zs e)" for zs
    using ingest_fold[OF ok, of mh h zs] by simp_all
  have "reachable mh h e'" if "ingest mh h e0 zs = Inr e'" "reachable mh h e0" for zs e0 e'
    using that
  proof (induction zs arbitrary: e0)
    case Nil
    then show ?case by simp
  next
    case (Cons z zs)
    then show ?case
      by (auto split: sum.splits intro: reachable.after_item)
  qed
  then have 1: "\<exists>e'. ingest mh h e xs = Inr e' \<and> reachable mh h e'"
    using run(1)[of xs] assms by blast
  have 2: "mset xs = mset ys \<longrightarrow>
             (\<exists>e'. ingest mh h e xs = Inr e' \<and> ingest mh h e ys = Inr e')"
    using perm[of xs ys] by (simp add: run)
  have 3: "0 < N \<longrightarrow>
             (\<exists>e'. ingest mh h e (replicate N x) = Inr e' \<and> ingest mh h e [x] = Inr e')"
    using dup by (simp only: run) simp
  have 4: "\<exists>e'. ingest mh h e [x, y] = Inr e' \<and> ingest mh h e [y, x] = Inr e'"
    using perm[of "[x, y]" "[y, x]"] by (simp only: run) simp
  have 5: "\<exists>e'. ingest mh h e [x, x] = Inr e' \<and> ingest mh h e [x] = Inr e'"
    using idem[OF ok, of x] by (simp only: run) simp
  from 1 2 3 4 5 show ?thesis
    by blast
qed

theorem ingest_order_and_duplicates_witness:
  "reachable (\<lambda>s. of_nat (length s)) (\<lambda>s. of_nat (length s)) (StochasticAveraging 2 [0, 0])
   \<and> mset [''a'', ''bb''] = mset [''bb'', ''a'']
   \<and> ingest (\<lambda>s. of_nat (length s)) (\<lambda>s. of_nat (length s)) (StochasticAveraging 2 [0, 0])
         [''a'', ''bb''] = Inr (StochasticAveraging 2 [1, 2])
   \<and> ingest (\<lambda>s. of_nat (length s)) (\<lambda>s. of_nat (length s)) (StochasticAveraging 2 [0, 0])
         [''bb'', ''a''] = Inr (StochasticAveraging 2 [1, 2])
   \<and> (0 :: nat) < 3
   \<and> ingest (\<lambda>s. of_nat (length s)) (\<lambda>s. of_nat (length s)) (StochasticAveraging 2 [0, 0])
         (replicate 3 ''a'') = Inr (StochasticAveraging 2 [0, 2])
   \<and> ingest (\<lambda>s. of_nat (length s)) (\<lambda>s. of_nat (length s)) (StochasticAveraging 2 [0, 0])
         [''a''] = Inr (StochasticAveraging 2 [0, 2])"
proof -
  let ?mh = "\<lambda>s :: string. of_nat (length s) :: u32"
  let ?e = "StochasticAveraging 2 [0, 0]"
  have "unat (2 :: u32) = Suc (Suc 0)"
    by simp
  then have rep: "replicate (unat (2 :: u32)) (0 :: u32) = [0, 0]"
    by (simp only: replicate.simps)
  have "sa_new 2 [8, 9] = Inr [0, 0]"
    using sa_new_ok[of "[8, 9]" 2] unfolding rep by simp
  then have re: "reachable ?mh ?mh ?e"
    by (intro reachable.new_sa[where mem = "[8, 9]"]) simp_all
  have m: "mset [''a'', ''bb''] = mset [''bb'', ''a'']"
    by simp
  have one: "ingest ?mh ?mh ?e [''a''] = Inr (StochasticAveraging 2 [0, 2])"
    by (simp add: sa_item_def urem_def read_reg_def write_reg_def R_def)
  have two: "ingest ?mh ?mh ?e [''a'', ''bb''] = Inr (StochasticAveraging 2 [1, 2])"
    by (simp add: sa_item_def urem_def read_reg_def write_reg_def R_def)
  note inst = ingest_order_and_duplicates [OF re, of "[''a'', ''bb'']" "[''bb'', ''a'']" 3 "''a''" "''a''"]
  from inst m two have swapped: "ingest ?mh ?mh ?e [''bb'', ''a''] = Inr (StochasticAveraging 2 [1, 2])"
    by auto
  from inst one have "ingest ?mh ?mh ?e (replicate 3 ''a'') = Inr (StochasticAveraging 2 [0, 2])"
    by auto
  with re m one two swapped show ?thesis
    by simp
qed


section \<open>The estimates\<close>

lemma unat_sum_R: "unat (sum_list (map R s)) = (\<Sum>v\<leftarrow>s. 2 ^ trailing_ones v) mod 2 ^ 32"
proof -
  have "(\<Sum>v\<leftarrow>s. unat (R v)) mod 2 ^ 32 = (\<Sum>v\<leftarrow>s. 2 ^ trailing_ones v) mod 2 ^ 32"
  proof (induction s)
    case Nil
    then show ?case by simp
  next
    case (Cons a s)
    have "(unat (R a) + (\<Sum>v\<leftarrow>s. unat (R v))) mod 2 ^ 32
            = (2 ^ trailing_ones a mod 2 ^ 32 + (\<Sum>v\<leftarrow>s. unat (R v)) mod 2 ^ 32) mod 2 ^ 32"
      by (simp only: unat_R mod_add_eq mod_add_right_eq)
    also have "\<dots> = (2 ^ trailing_ones a + (\<Sum>v\<leftarrow>s. 2 ^ trailing_ones v)) mod 2 ^ 32"
      by (simp only: Cons.IH mod_add_eq)
    finally show ?case by simp
  qed
  then show ?thesis
    by (simp only: unat_sum_list)
qed

lemma sum_R_exact:
  assumes "(\<Sum>v\<leftarrow>s. 2 ^ trailing_ones v) < (2 :: nat) ^ 32"
  shows "sum_list (map R s) = of_nat (\<Sum>v\<leftarrow>s. 2 ^ trailing_ones v)"
proof -
  have "unat (sum_list (map R s)) = (\<Sum>v\<leftarrow>s. 2 ^ trailing_ones v)"
    using assms by (simp add: unat_sum_R)
  then show ?thesis
    by (metis of_nat_unat ucast_id)
qed

lemma unat_sum_r: "unat (sum_list (map r s)) = (\<Sum>v\<leftarrow>s. trailing_ones v) mod 2 ^ 32"
  by (simp add: unat_sum_list unat_r)

lemma sum_r_exact:
  assumes "length s < 2 ^ 27"
  shows "(\<Sum>v\<leftarrow>s. trailing_ones v) < 2 ^ 32"
    and "sum_list (map r s) = of_nat (\<Sum>v\<leftarrow>s. trailing_ones v)"
proof -
  have "(\<Sum>v\<leftarrow>s. trailing_ones v) \<le> 32 * length s"
    by (rule sum_trailing_ones_le)
  also have "\<dots> < 2 ^ 32"
    using assms by simp
  finally show lt: "(\<Sum>v\<leftarrow>s. trailing_ones v) < 2 ^ 32" .
  then have "unat (sum_list (map r s)) = (\<Sum>v\<leftarrow>s. trailing_ones v)"
    by (simp add: unat_sum_r)
  then show "sum_list (map r s) = of_nat (\<Sum>v\<leftarrow>s. trailing_ones v)"
    by (metis of_nat_unat ucast_id)
qed

lemma unat_ge_1:
  assumes "M \<noteq> 0"
  shows "1 \<le> real (unat (M :: u32))"
proof -
  have "0 < unat M"
    using assms by (simp add: unat_gt_0)
  then have "Suc 0 \<le> unat M"
    by simp
  then have "real (Suc 0) \<le> real (unat M)"
    by (simp only: of_nat_le_iff)
  then show ?thesis by simp
qed

lemma r_zero: "r 0 = 0"
  by (simp add: r_def R_def p_def builtin_popcount_def eval_nat_numeral)

lemma r_three: "r 3 = 2"
  by (simp add: r_def R_def p_def builtin_popcount_def eval_nat_numeral)

lemma floor_pos: "1 \<le> x \<Longrightarrow> 0 < nat \<lfloor>x :: real\<rfloor>"
  by (simp add: le_floor_iff)

lemma unat_square:
  assumes "unat (M :: u32) < 2 ^ 16"
  shows "unat (M * M) = unat M * unat M"
proof -
  have "unat M * unat M < 2 ^ 16 * 2 ^ 16"
    using assms by (intro mult_strict_mono) simp_all
  then show ?thesis
    by (simp add: unat_word_ariths)
qed

subsection \<open>A freshly constructed estimator\<close>

lemma fresh_sums:
  "sa_sum M (replicate (unat M) 0) = Inr 0"
  "ll_sum M (replicate (unat M) 0) = Inr M"
  "hll_sum real_fpu M (replicate (unat M) 0) = Inr (real (unat M) / 2)"
  by (simp_all add: sa_sum_eq ll_sum_eq hll_sum_real sum_list_replicate r_zero R_def)

lemma fresh_sa:
  assumes "M \<noteq> 0"
  shows "fst (sa_count real_fpu M (replicate (unat M) 0)) = Inr (nat \<lfloor>real (unat M) / PHI\<rfloor>)"
    and "0 < nat \<lfloor>real (unat M) / PHI\<rfloor>"
proof -
  show "fst (sa_count real_fpu M (replicate (unat M) 0)) = Inr (nat \<lfloor>real (unat M) / PHI\<rfloor>)"
    by (simp add: sa_count_eq sum_list_replicate r_zero PHI_def)
  have "1 \<le> real (unat M) / PHI"
    using unat_ge_1[OF assms] by (simp add: PHI_def field_simps)
  then show "0 < nat \<lfloor>real (unat M) / PHI\<rfloor>"
    by (rule floor_pos)
qed

lemma fresh_ll:
  assumes "M \<noteq> 0"
  shows "fst (ll_count real_fpu M (replicate (unat M) 0)) = Inr (nat \<lfloor>4 * real (unat M) * PHI\<rfloor>)"
    and "0 < nat \<lfloor>4 * real (unat M) * PHI\<rfloor>"
proof -
  have nz: "real (unat M) \<noteq> 0"
    using unat_ge_1[OF assms] by simp
  have sm: "sum_list (map R (replicate (unat M) 0)) = M"
    by (simp add: sum_list_replicate R_def)
  have eqv: "real (unat M) * 2 powr (real (unat M) / real (unat M) + 1) * (77351 / 100000)
               = 4 * real (unat M) * PHI"
    using nz by (simp add: PHI_def)
  have len: "length (replicate (unat M) (0 :: u32)) = unat M"
    by simp
  have "fst (ll_count real_fpu M (replicate (unat M) 0))
          = Inr (nat \<lfloor>real (unat M) * 2 powr (real (unat M) / real (unat M) + 1) * (77351 / 100000)\<rfloor>)"
    by (simp only: ll_count_eq[OF len] sm fst_conv real_fpu_simps)
  then show "fst (ll_count real_fpu M (replicate (unat M) 0)) = Inr (nat \<lfloor>4 * real (unat M) * PHI\<rfloor>)"
    by (simp only: eqv)
  have "1 \<le> 4 * real (unat M) * PHI"
    using unat_ge_1[OF assms] by (simp add: PHI_def)
  then show "0 < nat \<lfloor>4 * real (unat M) * PHI\<rfloor>"
    by (rule floor_pos)
qed

lemma fresh_hll:
  assumes "M \<noteq> 0" "unat M < 2 ^ 16"
  shows "fst (hll_count real_fpu M (replicate (unat M) 0)) = Inr (nat \<lfloor>2 * real (unat M) * PHI\<rfloor>)"
    and "0 < nat \<lfloor>2 * real (unat M) * PHI\<rfloor>"
proof -
  have nz: "real (unat M) \<noteq> 0"
    using unat_ge_1[OF assms(1)] by simp
  have eqv: "real (unat (M * M)) * (77351 / 100000) / (real (unat M) / 2) = 2 * real (unat M) * PHI"
    using nz by (simp add: unat_square[OF assms(2)] PHI_def)
  have "fst (hll_count real_fpu M (replicate (unat M) 0))
          = Inr (nat \<lfloor>real (unat (M * M)) * (77351 / 100000) / (real (unat M) / 2)\<rfloor>)"
    by (simp only: hll_count_def fresh_sums sum.case fst_conv real_fpu_simps)
  then show "fst (hll_count real_fpu M (replicate (unat M) 0)) = Inr (nat \<lfloor>2 * real (unat M) * PHI\<rfloor>)"
    by (simp only: eqv)
  have "1 \<le> 2 * real (unat M) * PHI"
    using unat_ge_1[OF assms(1)] by (simp add: PHI_def)
  then show "0 < nat \<lfloor>2 * real (unat M) * PHI\<rfloor>"
    by (rule floor_pos)
qed





subsection \<open>LogLog\<close>

text \<open>
  Claim C2 says that the mean of the LogLog estimate is taken over \<open>2 ^ registers[k]\<close>.
  \<open>count\<close> sums \<open>R (registers[k])\<close>, the value of the lowest cleared bit of the register,
  not 2 to the power of the register: with one bucket whose register holds the rank 2
  (reached by one item whose hash ends in the bits 011) the sum is 1, not 4, and
  \<open>count\<close> returns 3, where the claim's formula gives 24.
\<close>

theorem loglog_estimate_counterexample:
  "ll_item (\<lambda>s. 0) (\<lambda>s. 3) 1 [0] ''a'' = Inr [2]
   \<and> ll_sum 1 [2] = Inr 1
   \<and> fst (ll_count real_fpu 1 [2]) = Inr 3
   \<and> nat \<lfloor>spec_ll_estimate 1 [2]\<rfloor> = 24"
proof -
  have "ll_item (\<lambda>s. 0) (\<lambda>s. 3) 1 [0] ''a'' = Inr [2]"
    by (simp add: ll_item_def urem_def read_reg_def write_reg_def r_three)
  moreover have "ll_sum 1 [2] = Inr 1"
    by (simp add: ll_sum_eq R_def)
  moreover have "fst (ll_count real_fpu 1 [2]) = Inr 3"
    by (simp add: ll_count_eq R_def)
  moreover have "nat \<lfloor>spec_ll_estimate 1 [2]\<rfloor> = 24"
    by (simp add: spec_ll_estimate_def PHI_def)
  ultimately show ?thesis
    by simp
qed

text \<open>
  Claim C2, amended. For every \<open>M \<ge> 1\<close> and every state of the \<open>M\<close> registers in which
  the sum over the buckets of \<open>2 ^ rank (registers[k])\<close> is below \<open>2 ^ 32\<close>, where
  \<open>rank v\<close> is the number of trailing one bits of the register value \<open>v\<close>, \<open>count\<close> of
  LogLog accumulates exactly that sum (\<open>R v\<close> is \<open>2 ^ rank v\<close>, not \<open>2 ^ v\<close>) and returns
  \<open>M * 2 ^ (mean + 1) * PHI\<close> with \<open>mean\<close> that sum divided by \<open>M\<close>, evaluated in
  \<^verbatim>\<open>double\<close> arithmetic and converted to \<^verbatim>\<open>size_t\<close>: the equation holds for whatever
  the operations on doubles are.
\<close>

theorem loglog_estimate:
  assumes "sketch_ok M s" "(\<Sum>v\<leftarrow>s. 2 ^ trailing_ones v) < (2 :: nat) ^ 32"
  shows "ll_sum M s = Inr (of_nat (\<Sum>v\<leftarrow>s. 2 ^ trailing_ones v))
         \<and> fst (ll_count fp M s)
             = Inr (to_size_t fp
                 (fmul fp
                    (fmul fp (of_u32 fp M)
                       (pow fp (lit fp 2)
                          (fadd fp
                             (fdiv fp (of_u32 fp (of_nat (\<Sum>v\<leftarrow>s. 2 ^ trailing_ones v)))
                                (of_u32 fp M))
                             (lit fp 1))))
                    (kPhi fp)))
         \<and> (v \<noteq> - 1 \<longrightarrow> unat (R v) = 2 ^ trailing_ones v)"
proof -
  from assms(1) have len: "length s = unat M"
    by (simp add: sketch_ok_def)
  have "unat (R v) = 2 ^ trailing_ones v" if "v \<noteq> - 1"
  proof -
    from lowest_clear_ex[OF that] obtain i where "i < 32" "\<not> bit v i" "\<forall>j<i. bit v j"
      by blast
    then show ?thesis
      by (simp add: R_lowest trailing_ones_lowest unat_two_power)
  qed
  then show ?thesis
    by (simp add: ll_sum_eq[OF len] ll_count_eq[OF len] sum_R_exact[OF assms(2)])
qed

theorem loglog_estimate_witness:
  "sketch_ok 2 [1, 3] \<and> (\<Sum>v\<leftarrow>[1, 3 :: u32]. 2 ^ trailing_ones v) = (6 :: nat)
   \<and> (6 :: nat) < 2 ^ 32 \<and> (3 :: u32) \<noteq> - 1 \<and> unat (R 3) = 4
   \<and> ll_sum 2 [1, 3] = Inr 6 \<and> fst (ll_count real_fpu 2 [1, 3]) = Inr 24"
proof -
  have ok: "sketch_ok 2 [1, 3]"
    by (simp add: sketch_ok_def)
  have t: "trailing_ones 1 = 1" "trailing_ones 3 = 2"
    using trailing_ones_lowest[of 1 1] trailing_ones_lowest[of 2 3]
    by (simp_all add: less_Suc_eq numeral_2_eq_2)
  have sm: "(\<Sum>v\<leftarrow>[1, 3 :: u32]. 2 ^ trailing_ones v) = (6 :: nat)"
    by (simp add: t)
  then have lt: "(\<Sum>v\<leftarrow>[1, 3 :: u32]. 2 ^ trailing_ones v) < (2 :: nat) ^ 32"
    by simp
  from loglog_estimate [OF ok lt, of real_fpu 3]
  have "ll_sum 2 [1, 3] = Inr 6" "fst (ll_count real_fpu 2 [1, 3]) = Inr 24" "unat (R 3) = 4"
    unfolding sm by (simp_all add: t)
  with ok sm show ?thesis
    by simp
qed

subsection \<open>Stochastic averaging\<close>

lemma sa_count_below_wrap:
  assumes "sketch_ok M s" "unat M < 2 ^ 27"
  shows "(\<Sum>v\<leftarrow>s. trailing_ones v) < 2 ^ 32"
    and "sa_sum M s = Inr (of_nat (\<Sum>v\<leftarrow>s. trailing_ones v))"
    and "fst (sa_count fp M s)
           = Inr (to_size_t fp
               (fdiv fp
                  (fmul fp (of_u32 fp M)
                     (pow fp (lit fp 2)
                        (fdiv fp (of_u32 fp (of_nat (\<Sum>v\<leftarrow>s. trailing_ones v)))
                           (of_u32 fp M))))
                  (kPhi fp)))"
proof -
  from assms have len: "length s = unat M" and small: "length s < 2 ^ 27"
    by (simp_all add: sketch_ok_def)
  show "(\<Sum>v\<leftarrow>s. trailing_ones v) < 2 ^ 32"
    by (rule sum_r_exact(1)[OF small])
  show "sa_sum M s = Inr (of_nat (\<Sum>v\<leftarrow>s. trailing_ones v))"
    by (simp add: sa_sum_eq[OF len] sum_r_exact(2)[OF small])
  show "fst (sa_count fp M s)
           = Inr (to_size_t fp
               (fdiv fp
                  (fmul fp (of_u32 fp M)
                     (pow fp (lit fp 2)
                        (fdiv fp (of_u32 fp (of_nat (\<Sum>v\<leftarrow>s. trailing_ones v)))
                           (of_u32 fp M))))
                  (kPhi fp)))"
    by (simp add: sa_count_eq[OF len] sum_r_exact(2)[OF small])
qed

text \<open>
  Claim C4 says that for every \<open>M \<ge> 1\<close>, \<open>item\<close> of stochastic averaging ORs
  \<open>R (hash x)\<close> into the register at index \<open>murmurhash3_32 x mod M\<close>, and \<open>count\<close>
  returns \<open>M * 2 ^ mean / PHI\<close>, \<open>mean\<close> the arithmetic mean over the buckets of the
  number of trailing ones of each register. \<open>item\<close> does so (\<open>sa_item_ok\<close>), and \<open>count\<close>
  sums the ranks exactly as long as \<open>M < 2 ^ 27\<close> (\<open>sa_count_below_wrap\<close>). The sum is
  a \<^verbatim>\<open>uint32_t\<close>: with \<open>M = 2 ^ 31\<close> buckets that all hold the bitmap 3, of rank 2, the
  sum \<open>2 * 2 ^ 31\<close> wraps around to 0, the mean taken is 0 instead of 2, and \<open>count\<close>
  returns \<open>M / PHI\<close>, that is 2776284272, where \<open>M * 2 ^ 2 / PHI\<close> is 11105137091 after
  truncation.
\<close>

theorem stochastic_averaging_sum_wraps:
  "sa_sum 2147483648 (replicate 2147483648 3) = Inr 0
   \<and> fst (sa_count real_fpu 2147483648 (replicate 2147483648 3)) = Inr 2776284272
   \<and> (\<Sum>v\<leftarrow>replicate 2147483648 (3 :: u32). real (trailing_ones v)) / 2147483648 = 2
   \<and> nat \<lfloor>spec_sa_estimate 2147483648 (replicate 2147483648 3)\<rfloor> = 11105137091"
proof -
  have t: "trailing_ones 3 = 2"
    using trailing_ones_lowest[of 2 3] by (simp add: less_Suc_eq numeral_2_eq_2)
  have "sa_sum 2147483648 (replicate 2147483648 3) = Inr 0"
    by (simp add: sa_sum_eq sum_list_replicate r_three)
  moreover have "fst (sa_count real_fpu 2147483648 (replicate 2147483648 3)) = Inr 2776284272"
    by (simp add: sa_count_eq sum_list_replicate r_three)
  moreover have "(\<Sum>v\<leftarrow>replicate 2147483648 (3 :: u32). real (trailing_ones v)) / 2147483648 = 2"
    by (simp add: sum_list_replicate t)
  moreover have "nat \<lfloor>spec_sa_estimate 2147483648 (replicate 2147483648 3)\<rfloor> = 11105137091"
    by (simp add: spec_sa_estimate_def sum_list_replicate t PHI_def)
  ultimately show ?thesis
    by simp
qed

subsection \<open>HyperLogLog\<close>

lemma hll_count_65536:
  assumes "sketch_ok 65536 s"
  shows "\<exists>sm. hll_sum fp 65536 s = Inr sm
           \<and> fst (hll_count fp 65536 s)
               = Inr (to_size_t fp (fdiv fp (fmul fp (of_u32 fp 0) (kPhi fp)) sm))"
proof -
  from assms have len: "length s = unat (65536 :: u32)"
    by (simp add: sketch_ok_def)
  have z: "(65536 :: u32) * 65536 = 0"
    by simp
  show ?thesis
    unfolding hll_count_def z hll_sum_eq[OF len] by simp
qed

text \<open>
  Claim C5 says that for every \<open>M \<ge> 1\<close> and every state of the registers, \<open>count\<close> of
  HyperLogLog is \<open>M\<^sup>2 * PHI / sum\<close>, \<open>sum\<close> the sum over the buckets of
  \<open>2 ^ (- 1 - registers[k])\<close>. The product \<open>M * M\<close> is taken on \<^verbatim>\<open>unsigned\<close> before the
  conversion to \<^verbatim>\<open>double\<close>; it is \<open>M\<^sup>2\<close> as long as \<open>M < 2 ^ 16\<close> (\<open>unat_square\<close>), and
  for \<open>M = 65536\<close> it wraps around to 0: on the freshly constructed estimator with
  65536 buckets \<open>count\<close> returns 0, where \<open>M\<^sup>2 * PHI / sum\<close> is 101385 after truncation.
  On every state of the 65536 registers the dividend is the double of 0
  (\<open>hll_count_65536\<close>).
\<close>

theorem hyperloglog_product_wraps:
  "hll_new 65536 (replicate 65536 7) = Inr (replicate 65536 0)
   \<and> (65536 :: u32) * 65536 = 0
   \<and> fst (hll_count real_fpu 65536 (replicate 65536 0)) = Inr 0
   \<and> nat \<lfloor>spec_hll_estimate 65536 (replicate 65536 0)\<rfloor> = 101385"
proof -
  have "hll_new 65536 (replicate 65536 7) = Inr (replicate 65536 0)"
    using hll_new_ok[of "replicate 65536 7" 65536] by simp
  moreover have "fst (hll_count real_fpu 65536 (replicate 65536 0)) = Inr 0"
    by (simp add: hll_count_eq)
  moreover have "nat \<lfloor>spec_hll_estimate 65536 (replicate 65536 0)\<rfloor> = 101385"
    by (simp add: spec_hll_estimate_def sum_list_replicate PHI_def)
  ultimately show ?thesis
    by simp
qed

end
